theory Spec2Isabelle
  imports Complex_Main
begin

unbundle bit_operations_syntax

section \<open>The HyperLogLog estimator of \<^verbatim>\<open>hyperloglog.py\<close>\<close>

text \<open>
  The class \<^verbatim>\<open>HyperLogLog\<close> is embedded as a record of its three attributes and one
  function per method. Python integers are unbounded and are modelled as \<open>int\<close>.
  A Python float is modelled by the real number it holds. The exceptions of \<^verbatim>\<open>/\<close>
  (division by zero) and of \<^verbatim>\<open>math.log\<close>, \<^verbatim>\<open>math.log2\<close> (argument not positive) and
  the underflow of \<^verbatim>\<open>2 ** -register\<close> to \<open>0.0\<close> are branches of the model; the rounding
  of the other float operations is not modelled. \<^verbatim>\<open>math.log2\<close> is exact on the powers of
  two, the only bucket counts that the constructor accepts. Limits of the machine (memory
  for the register list) are not modelled either.

  Exceptions are values. A failed \<^verbatim>\<open>assert\<close> of \<^verbatim>\<open>__init__\<close> is the Python
  \<^verbatim>\<open>AssertionError\<close> that the specification calls \<open>InvalidConfiguration\<close>, the failed
  \<^verbatim>\<open>assert\<close> of \<^verbatim>\<open>merge\<close> is the one it calls \<open>IncompatibleShape\<close>.
\<close>

datatype error =
    InvalidConfiguration
  | IncompatibleShape
  | ValueError
  | ZeroDivisionError
  | IndexError

record hll =
  number_of_buckets :: int
  buckets :: "int list"
  alpha_m :: real

subsection \<open>Library functions the class calls\<close>

text \<open>\<^verbatim>\<open>math.log2(n)\<close> for an integer \<open>n\<close>: a \<^verbatim>\<open>ValueError\<close> unless \<open>n\<close> is positive.\<close>

definition math_log2 :: "int \<Rightarrow> error + real" where
  "math_log2 n = (if n \<le> 0 then Inl ValueError else Inr (log 2 (real_of_int n)))"

text \<open>\<^verbatim>\<open>math.log(x)\<close>: a \<^verbatim>\<open>ValueError\<close> (math domain error) unless \<open>x\<close> is positive.\<close>

definition math_log :: "real \<Rightarrow> error + real" where
  "math_log x = (if x \<le> 0 then Inl ValueError else Inr (ln x))"

text \<open>\<^verbatim>\<open>x / y\<close>: a \<^verbatim>\<open>ZeroDivisionError\<close> when \<open>y\<close> is zero.\<close>

definition truediv :: "real \<Rightarrow> real \<Rightarrow> error + real" where
  "truediv x y = (if y = 0 then Inl ZeroDivisionError else Inr (x / y))"

text \<open>\<^verbatim>\<open>float.is_integer()\<close>.\<close>

definition is_integer :: "real \<Rightarrow> bool" where
  "is_integer x = (x \<in> \<int>)"

text \<open>\<^verbatim>\<open>int(x)\<close> of a float truncates towards zero.\<close>

definition int_of_float :: "real \<Rightarrow> int" where
  "int_of_float x = (if 0 \<le> x then \<lfloor>x\<rfloor> else \<lceil>x\<rceil>)"

text \<open>
  \<^verbatim>\<open>2 ** -register\<close>: an integer power when the exponent \<^verbatim>\<open>-register\<close> is not
  negative, a float otherwise. The float \<open>1 / 2 ^ register\<close> is a double, and exact, up to
  \<open>register = 1074\<close> (the smallest subnormal); from 1075 on the power underflows to
  \<open>0.0\<close>.
\<close>

definition pow2_neg :: "int \<Rightarrow> real" where
  "pow2_neg register =
     (if 0 \<le> - register then 2 ^ nat (- register)
      else if register \<le> 1074 then 1 / 2 ^ nat register
      else 0)"

text \<open>
  \<^verbatim>\<open>xs[i]\<close> for reading or writing: a negative index counts from the end, and an index
  outside the list is an \<^verbatim>\<open>IndexError\<close> (here \<open>None\<close>).
\<close>

definition list_index :: "'a list \<Rightarrow> int \<Rightarrow> nat option" where
  "list_index xs i =
     (if 0 \<le> i \<and> i < int (length xs) then Some (nat i)
      else if i < 0 \<and> - int (length xs) \<le> i then Some (nat (int (length xs) + i))
      else None)"

subsection \<open>Construction\<close>

definition warning_text :: string where
  "warning_text =
     ''Warning: Using a non-standard number of buckets. '' @
     ''Consider using 16, 32, 64, or a power of 2 >= 128 for better accuracy.''"

text \<open>
  \<^verbatim>\<open>_compute_alpha_m\<close> returns the lines it prints together with the constant.
\<close>

definition compute_alpha_m :: "int \<Rightarrow> error + (string list \<times> real)" where
  "compute_alpha_m n =
     (case math_log2 n of
        Inl e \<Rightarrow> Inl e
      | Inr l \<Rightarrow>
          (let printed = (if \<not> is_integer l \<and> n < 128 then [warning_text] else [])
           in if n = 16 then Inr (printed, 0.673)
              else if n = 32 then Inr (printed, 0.697)
              else if n = 64 then Inr (printed, 0.709)
              else Inr (printed, 0.7213 / (1 + 1.079 / real_of_int n))))"

text \<open>\<^verbatim>\<open>HyperLogLog(number_of_buckets)\<close>: the printed lines and the new object.\<close>

definition new :: "int \<Rightarrow> error + (string list \<times> hll)" where
  "new n =
     (if \<not> n > 0 then Inl InvalidConfiguration
      else if \<not> n AND (n - 1) = 0 then Inl InvalidConfiguration
      else (case compute_alpha_m n of
              Inl e \<Rightarrow> Inl e
            | Inr (printed, a) \<Rightarrow>
                Inr (printed,
                     \<lparr>number_of_buckets = n,
                      buckets = replicate (nat n) 0,
                      alpha_m = a\<rparr>)))"

subsection \<open>Insertion\<close>

text \<open>
  The loop of \<^verbatim>\<open>_count_leading_zeroes\<close>: it runs while \<open>value\<close> is positive and
  leaves at the first set bit.
\<close>

function count_loop :: "int \<Rightarrow> int \<Rightarrow> int" where
  "count_loop v count =
     (if v > 0
      then (if v AND 1 = 1 then count else count_loop (drop_bit 1 v) (count + 1))
      else count)"
  by pat_completeness auto
termination
  by (relation "measure (\<lambda>(v, count). nat v)") (auto simp: drop_bit_eq_div)

declare count_loop.simps [simp del]

definition count_leading_zeroes :: "int \<Rightarrow> int" where
  "count_leading_zeroes v = count_loop v 1"

text \<open>
  \<^verbatim>\<open>add\<close> returns the exception it raised, if any, and the object after the call.
  The parameter \<open>sha256\<close> stands for the library call
  \<^verbatim>\<open>int(hashlib.sha256(item.encode("utf-8")).hexdigest(), 16)\<close>.
\<close>

definition add :: "(string \<Rightarrow> int) \<Rightarrow> hll \<Rightarrow> string \<Rightarrow> error option \<times> hll" where
  "add sha256 self item =
     (let hash_value = sha256 item;
          bucket_index = hash_value AND (number_of_buckets self - 1)
      in case math_log2 (number_of_buckets self) of
           Inl e \<Rightarrow> (Some e, self)
         | Inr l \<Rightarrow>
             (let remaining_hash = drop_bit (nat (int_of_float l)) hash_value;
                  leading_zeroes = count_leading_zeroes remaining_hash
              in case list_index (buckets self) bucket_index of
                   None \<Rightarrow> (Some IndexError, self)
                 | Some j \<Rightarrow>
                     (None,
                      self\<lparr>buckets :=
                        (buckets self)[j := max (buckets self ! j) leading_zeroes]\<rparr>)))"

subsection \<open>Estimation\<close>

text \<open>
  \<^verbatim>\<open>estimate\<close>, for registers that are not negative. The sum, the products, the
  quotients and the logarithms are taken on the real numbers: the model gives the result
  of the code at the states where the float run is exact or stays clear of the three
  comparisons (\<open>raw \<le> 2.5 * m\<close>, \<open>estimate > 2 ^ 32 / 30\<close>, argument of the logarithm
  \<open>\<le> 0\<close>), and the facts proved of it below are at such states only: the new estimator,
  where every intermediate value is a power of two times \<open>alpha_m\<close>, \<open>1.0\<close> or \<open>0.0\<close>,
  and states whose raw estimate is well above \<open>2 ^ 32\<close>.
\<close>

definition estimate :: "hll \<Rightarrow> error + real" where
  "estimate self =
     (let harmonic_mean = sum_list (map pow2_neg (buckets self))
      in case truediv (alpha_m self * (real_of_int (number_of_buckets self)) ^ 2)
                harmonic_mean of
           Inl e \<Rightarrow> Inl e
         | Inr raw_estimate \<Rightarrow>
             (case (if raw_estimate \<le> 2.5 * real_of_int (number_of_buckets self)
                    then (let zero_buckets = count_list (buckets self) 0
                          in if zero_buckets > 0
                             then (case truediv (real_of_int (number_of_buckets self))
                                          (real zero_buckets) of
                                     Inl e \<Rightarrow> Inl e
                                   | Inr q \<Rightarrow>
                                       (case math_log q of
                                          Inl e \<Rightarrow> Inl e
                                        | Inr l \<Rightarrow>
                                            Inr (real_of_int (number_of_buckets self) * l)))
                             else Inr raw_estimate)
                    else Inr raw_estimate) of
                Inl e \<Rightarrow> Inl e
              | Inr corrected \<Rightarrow>
                  (if corrected > 2 ^ 32 / 30
                   then (case math_log (1 - corrected / 2 ^ 32) of
                           Inl e \<Rightarrow> Inl e
                         | Inr l \<Rightarrow> Inr (- (2 ^ 32) * l))
                   else Inr corrected)))"

subsection \<open>Merging\<close>

text \<open>
  \<^verbatim>\<open>merge\<close> returns the exception it raised, if any, and \<open>self\<close> after the call. The
  list comprehension is built in full before it is assigned, so an exception inside it
  leaves \<open>self\<close> as it was.
\<close>

definition merge :: "hll \<Rightarrow> hll \<Rightarrow> error option \<times> hll" where
  "merge self other =
     (if \<not> number_of_buckets self = number_of_buckets other
      then (Some IncompatibleShape, self)
      else (let n = nat (number_of_buckets self)
            in if n \<le> length (buckets self) \<and> n \<le> length (buckets other)
               then (None,
                     self\<lparr>buckets :=
                       map (\<lambda>i. max (buckets self ! i) (buckets other ! i)) [0..<n]\<rparr>)
               else (Some IndexError, self)))"

subsection \<open>States, operations and the properties of the specification\<close>

text \<open>
  The state invariant of the specification: the register list has exactly
  \<open>number_of_buckets\<close> entries.
\<close>

definition hll_inv :: "hll \<Rightarrow> bool" where
  "hll_inv s = (int (length (buckets s)) = number_of_buckets s)"

text \<open>
  What the library guarantees of the parameter \<open>sha256\<close>: the digest read as an
  integer is an unsigned number of 256 bits.
\<close>

definition digest_256 :: "(string \<Rightarrow> int) \<Rightarrow> bool" where
  "digest_256 sha256 = (\<forall>item. 0 \<le> sha256 item \<and> sha256 item < 2 ^ 256)"

text \<open>
  The three public operations as one transition on the object. \<^verbatim>\<open>estimate\<close> assigns
  no attribute, so the object after it is the object before it.
\<close>

datatype operation = Add string | Merge hll | Estimate

fun apply_operation :: "(string \<Rightarrow> int) \<Rightarrow> hll \<Rightarrow> operation \<Rightarrow> hll" where
  "apply_operation sha256 self (Add item) = snd (add sha256 self item)"
| "apply_operation sha256 self (Merge other) = snd (merge self other)"
| "apply_operation sha256 self Estimate = self"

text \<open>A stream of items fed to \<^verbatim>\<open>add\<close> one after the other, as the driver does.\<close>

fun add_all :: "(string \<Rightarrow> int) \<Rightarrow> hll \<Rightarrow> string list \<Rightarrow> hll" where
  "add_all sha256 self [] = self"
| "add_all sha256 self (item # items) = add_all sha256 (snd (add sha256 self item)) items"

text \<open>
  The estimators that can be built with \<open>n\<close> buckets: a new one, one after an
  \<^verbatim>\<open>add\<close>, and one after a \<^verbatim>\<open>merge\<close> with another estimator built the same way.
\<close>

inductive reachable :: "(string \<Rightarrow> int) \<Rightarrow> int \<Rightarrow> hll \<Rightarrow> bool"
  for sha256 :: "string \<Rightarrow> int" and n :: int where
  reachable_new: "new n = Inr (printed, s) \<Longrightarrow> reachable sha256 n s"
| reachable_add: "reachable sha256 n s \<Longrightarrow> reachable sha256 n (snd (add sha256 s item))"
| reachable_merge:
    "reachable sha256 n s \<Longrightarrow> reachable sha256 n t \<Longrightarrow>
     reachable sha256 n (snd (merge s t))"

section \<open>Auxiliary facts\<close>

subsection \<open>Bits and powers of two\<close>

lemma int_of_float_log2_power: "nat (int_of_float (log 2 (real_of_int (2 ^ k)))) = k"
  by (simp add: int_of_float_def)

lemma pow2_and_pred: "(2::int) ^ k AND (2 ^ k - 1) = 0"
proof -
  have "(2::int) ^ k AND (2 ^ k - 1) = take_bit k (2 ^ k)"
    by (simp add: take_bit_eq_mask mask_eq_exp_minus_1)
  then show ?thesis by simp
qed

lemma and_pred_pow2:
  "0 < n \<Longrightarrow> n AND (n - 1) = 0 \<Longrightarrow> \<exists>k. n = (2::int) ^ k"
proof (induction "nat n" arbitrary: n rule: less_induct)
  case less
  show ?case
  proof (cases "even n")
    case True
    then obtain a where a: "n = 2 * a" by (auto elim: evenE)
    with less.prems have apos: "0 < a" by simp
    have "n AND (n - 1) = 2 * (a AND (a - 1))"
    proof -
      have "(2 * a - 1) div 2 = a - 1" by simp
      then show ?thesis
        using a by (subst and_int.rec) (simp add: )
    qed
    with less.prems have "a AND (a - 1) = 0" by simp
    moreover have "nat a < nat n" using a apos by simp
    ultimately obtain k where "a = 2 ^ k" using less.hyps[of a] apos by blast
    with a have "n = 2 ^ Suc k" by simp
    then show ?thesis by blast
  next
    case False
    then obtain a where a: "n = 2 * a + 1" by (auto elim: oddE)
    have "n AND (n - 1) = 2 * (a AND a)"
      using a by (subst and_int.rec) simp
    with less.prems have "a = 0" by simp
    with a have "n = 2 ^ 0" by simp
    then show ?thesis by blast
  qed
qed

lemma count_loop_spec:
  "0 < v \<Longrightarrow> \<exists>n. count_loop v c = c + int n \<and> bit v n \<and> (\<forall>i<n. \<not> bit v i)"
proof (induction v c rule: count_loop.induct)
  case (1 v count)
  show ?case
  proof (cases "v AND 1 = 1")
    case True
    then have "odd v" by (simp add: and_one_eq) presburger
    have "count_loop v count = count"
      using 1(2) True by (subst count_loop.simps) simp
    with \<open>odd v\<close> have "count_loop v count = count + int 0 \<and> bit v 0 \<and> (\<forall>i<0. \<not> bit v i)"
      by (simp add: bit_0)
    then show ?thesis by blast
  next
    case False
    then have ev: "even v" by (simp add: and_one_eq mod_2_eq_odd)
    with 1 have pos: "0 < drop_bit 1 v" by (auto simp: drop_bit_eq_div elim!: evenE)
    from 1 False pos obtain n where n: "count_loop (drop_bit 1 v) (count + 1) = count + 1 + int n"
       "bit (drop_bit 1 v) n" "\<forall>i<n. \<not> bit (drop_bit 1 v) i"
      by blast
    have eq: "count_loop v count = count_loop (drop_bit 1 v) (count + 1)"
      using 1(2) False by (subst count_loop.simps) simp
    have b: "bit v (Suc i) = bit (drop_bit 1 v) i" for i
      by (simp add: bit_Suc drop_bit_eq_div)
    have "\<not> bit v i" if "i < Suc n" for i
      using that ev n(3) b by (cases i) (simp_all add: bit_0)
    with eq n b have "count_loop v count = count + int (Suc n) \<and> bit v (Suc n) \<and> (\<forall>i<Suc n. \<not> bit v i)"
      by simp
    then show ?thesis by blast
  qed
qed

lemma count_loop_nonpos: "v \<le> 0 \<Longrightarrow> count_loop v c = c"
  by (subst count_loop.simps) simp

lemma bit_less_exp: "0 \<le> v \<Longrightarrow> v < 2 ^ N \<Longrightarrow> bit (v::int) n \<Longrightarrow> n < N"
proof (rule ccontr)
  assume v: "0 \<le> v" "v < 2 ^ N" and b: "bit v n" and "\<not> n < N"
  then have "(2::int) ^ N \<le> 2 ^ n" by simp
  with v have "v < 2 ^ n" by linarith
  with v have "v div 2 ^ n = 0" by (simp add: div_pos_pos_trivial)
  with b show False by (simp add: bit_iff_odd)
qed

subsection \<open>Insertion and merging\<close>

lemma add_nonpos:
  "number_of_buckets s \<le> 0 \<Longrightarrow> add H s x = (Some ValueError, s)"
  by (simp add: add_def math_log2_def)

lemma add_pos:
  "0 < number_of_buckets s \<Longrightarrow>
   add H s x =
     (case list_index (buckets s) (H x AND (number_of_buckets s - 1)) of
        None \<Rightarrow> (Some IndexError, s)
      | Some j \<Rightarrow>
          (None, s\<lparr>buckets := (buckets s)[j := max (buckets s ! j)
             (count_leading_zeroes
                (drop_bit (nat (int_of_float (log 2 (real_of_int (number_of_buckets s))))) (H x)))]\<rparr>))"
  by (simp add: add_def math_log2_def Let_def)

lemma list_index_SomeD: "list_index xs i = Some j \<Longrightarrow> j < length xs"
  by (auto simp: list_index_def split: if_splits)

lemma list_index_in_range:
  "0 \<le> i \<Longrightarrow> i < int (length xs) \<Longrightarrow> list_index xs i = Some (nat i)"
  by (simp add: list_index_def)

lemma bucket_index_range:
  "0 < m \<Longrightarrow> 0 \<le> h AND (m - 1) \<and> h AND (m - 1) < (m::int)"
proof -
  assume "0 < m"
  then have "0 \<le> m - 1" by simp
  then have "0 \<le> h AND (m - 1)" "h AND (m - 1) \<le> m - 1"
    by (simp_all add: AND_upper2)
  then show ?thesis by simp
qed

lemma add_inv:
  assumes "hll_inv s" and "0 < number_of_buckets s"
  shows "add H s x =
     (None, s\<lparr>buckets := (buckets s)[nat (H x AND (number_of_buckets s - 1)) :=
        max (buckets s ! nat (H x AND (number_of_buckets s - 1)))
          (count_leading_zeroes
             (drop_bit (nat (int_of_float (log 2 (real_of_int (number_of_buckets s))))) (H x)))]\<rparr>)"
proof -
  from assms bucket_index_range[of "number_of_buckets s" "H x"]
  have "list_index (buckets s) (H x AND (number_of_buckets s - 1))
        = Some (nat (H x AND (number_of_buckets s - 1)))"
    by (intro list_index_in_range) (simp_all add: hll_inv_def)
  with assms(2) show ?thesis by (simp add: add_pos)
qed

lemma add_number_of_buckets: "number_of_buckets (snd (add H s x)) = number_of_buckets s"
  by (cases "0 < number_of_buckets s") (simp_all add: add_pos add_nonpos split: option.splits)

lemma add_alpha_m: "alpha_m (snd (add H s x)) = alpha_m s"
  by (cases "0 < number_of_buckets s") (simp_all add: add_pos add_nonpos split: option.splits)

lemma add_length: "length (buckets (snd (add H s x))) = length (buckets s)"
  by (cases "0 < number_of_buckets s") (simp_all add: add_pos add_nonpos split: option.splits)

lemma add_mono: "i < length (buckets s) \<Longrightarrow> buckets s ! i \<le> buckets (snd (add H s x)) ! i"
  by (cases "0 < number_of_buckets s")
     (auto simp: add_pos add_nonpos nth_list_update dest: list_index_SomeD split: option.splits)

lemma merge_number_of_buckets: "number_of_buckets (snd (merge s t)) = number_of_buckets s"
  by (simp add: merge_def Let_def)

lemma merge_alpha_m: "alpha_m (snd (merge s t)) = alpha_m s"
  by (simp add: merge_def Let_def)

lemma merge_length: "hll_inv s \<Longrightarrow> length (buckets (snd (merge s t))) = length (buckets s)"
  by (auto simp: merge_def Let_def hll_inv_def)

lemma merge_mono:
  "hll_inv s \<Longrightarrow> i < length (buckets s) \<Longrightarrow> buckets s ! i \<le> buckets (snd (merge s t)) ! i"
  by (auto simp: merge_def Let_def hll_inv_def)

lemma merge_inv:
  assumes "hll_inv s" "hll_inv t" "number_of_buckets s = number_of_buckets t"
  shows "merge s t = (None, s\<lparr>buckets := map2 max (buckets s) (buckets t)\<rparr>)"
proof -
  from assms have len: "length (buckets s) = nat (number_of_buckets s)"
      "length (buckets t) = nat (number_of_buckets s)"
    by (auto simp: hll_inv_def)
  have "map (\<lambda>i. max (buckets s ! i) (buckets t ! i)) [0..<nat (number_of_buckets s)]
        = map2 max (buckets s) (buckets t)"
    by (rule nth_equalityI) (simp_all add: len)
  with assms(3) len show ?thesis by (simp add: merge_def Let_def)
qed

subsection \<open>Construction\<close>

lemma log2_power_is_integer: "is_integer (log 2 (real_of_int (2 ^ k)))"
  by (simp add: is_integer_def)

lemma log2_is_integer_imp_power:
  assumes pos: "0 < n" and int: "is_integer (log 2 (real_of_int n))"
  shows "\<exists>k. n = 2 ^ k"
proof -
  from int obtain z :: int where z: "log 2 (real_of_int n) = of_int z"
    by (auto simp: is_integer_def elim: Ints_cases)
  from pos have "0 \<le> log 2 (real_of_int n)" by simp
  with z have "0 \<le> z" by simp
  then obtain k where k: "z = int k" by (auto elim: nonneg_int_cases)
  from pos have "real_of_int n = 2 powr (log 2 (real_of_int n))" by simp
  also have "\<dots> = 2 ^ k" using z k by (simp add: powr_realpow)
  finally have "real_of_int n = real_of_int (2 ^ k)" by simp
  then have "n = 2 ^ k" by (simp only: of_int_eq_iff)
  then show ?thesis by blast
qed

lemma compute_alpha_m_power:
  "\<exists>a. compute_alpha_m (2 ^ k) = Inr ([], a) \<and> a \<le> 2.5"
proof -
  have pr: "(if \<not> is_integer (log 2 (real_of_int (2 ^ k))) \<and> (2::int) ^ k < 128
             then [warning_text] else []) = []"
    using log2_power_is_integer[of k] by simp
  have lg: "math_log2 (2 ^ k) = Inr (log 2 (real_of_int (2 ^ k)))"
    by (simp add: math_log2_def)
  have "0 < 1 + 1.079 / real_of_int (2 ^ k)"
    by (simp add: add_pos_nonneg)
  then have b: "0.7213 / (1 + 1.079 / real_of_int (2 ^ k)) \<le> (2.5::real)"
    by (simp add: field_simps add_pos_nonneg)
  let ?a = "if (2::int) ^ k = 16 then 0.673 else if (2::int) ^ k = 32 then 0.697
            else if (2::int) ^ k = 64 then 0.709
            else 0.7213 / (1 + 1.079 / real_of_int (2 ^ k)) :: real"
  have "compute_alpha_m (2 ^ k) = Inr ([], ?a)"
    unfolding compute_alpha_m_def lg sum.case Let_def pr by simp
  moreover have "?a \<le> 2.5" using b by simp
  ultimately show ?thesis by blast
qed

lemma compute_alpha_m_not_power:
  assumes "0 < n" "n < 128" "\<not> (\<exists>k. n = 2 ^ k)"
  shows "compute_alpha_m n = Inr ([warning_text], 0.7213 / (1 + 1.079 / real_of_int n))"
proof -
  from assms(1,3) have ni: "\<not> is_integer (log 2 (real_of_int n))"
    using log2_is_integer_imp_power by blast
  have "n \<noteq> 2 ^ 4" "n \<noteq> 2 ^ 5" "n \<noteq> 2 ^ 6"
    using assms(3) by blast+
  then have "n \<noteq> 16" "n \<noteq> 32" "n \<noteq> 64" by simp_all
  with assms ni show ?thesis
    by (simp add: compute_alpha_m_def math_log2_def Let_def)
qed

lemma new_not_power: "\<not> (\<exists>k. n = 2 ^ k) \<Longrightarrow> new n = Inl InvalidConfiguration"
  using and_pred_pow2[of n] by (auto simp: new_def)

lemma new_power:
  "\<exists>a. new (2 ^ k) = Inr ([], \<lparr>number_of_buckets = 2 ^ k,
                                 buckets = replicate (2 ^ k) 0, alpha_m = a\<rparr>) \<and> a \<le> 2.5"
proof -
  from compute_alpha_m_power[of k] obtain a where
    a: "compute_alpha_m (2 ^ k) = Inr ([], a)" "a \<le> 2.5" by blast
  have "nat (2 ^ k) = 2 ^ k" by (simp add: nat_power_eq)
  with a show ?thesis
    by (simp add: new_def pow2_and_pred)
qed

lemma estimate_fresh:
  assumes "0 < m" "a \<le> 2.5"
  shows "estimate \<lparr>number_of_buckets = m, buckets = replicate (nat m) 0, alpha_m = a\<rparr> = Inr 0"
proof -
  have hm: "sum_list (map pow2_neg (replicate (nat m) 0)) = real_of_int m"
    using assms(1) by (simp add: sum_list_replicate pow2_neg_def)
  have raw: "truediv (a * (real_of_int m)\<^sup>2) (real_of_int m) = Inr (a * real_of_int m)"
    using assms(1) by (simp add: truediv_def power2_eq_square)
  have le: "a * real_of_int m \<le> 2.5 * real_of_int m"
    using assms by (intro mult_right_mono) simp_all
  have "count_list (replicate k (0::int)) 0 = k" for k
    by (induction k) simp_all
  then have cnt: "count_list (replicate (nat m) (0::int)) 0 = nat m" .
  have pos: "0 < nat m" using assms(1) by simp
  have q: "truediv (real_of_int m) (real (nat m)) = Inr 1"
    using assms(1) by (simp add: truediv_def)
  have l: "math_log 1 = Inr 0"
    by (simp add: math_log_def)
  show ?thesis
    unfolding estimate_def Let_def hll.select_convs hm raw sum.case cnt q l
    using le pos by simp
qed

lemma not_power_100: "\<not> (\<exists>k. (100::int) = 2 ^ k)"
proof
  assume "\<exists>k. (100::int) = 2 ^ k"
  then obtain k where k: "(100::int) = 2 ^ k" by blast
  show False
  proof (cases "k \<le> 6")
    case True
    then have "(2::int) ^ k \<le> 2 ^ 6" by (intro power_increasing) simp_all
    with k show False by simp
  next
    case False
    then have "(2::int) ^ 7 \<le> 2 ^ k" by (intro power_increasing) simp_all
    with k show False by simp
  qed
qed

lemma new_4:
  "new (2 ^ 2) = Inr ([], \<lparr>number_of_buckets = 4, buckets = [0, 0, 0, 0],
                          alpha_m = 0.7213 / (1 + 1.079 / 4)\<rparr>)"
proof -
  have "is_integer (log 2 (real_of_int 4))"
    using log2_power_is_integer[of 2] by simp
  then show ?thesis
    by (simp add: new_def compute_alpha_m_def math_log2_def numeral_eq_Suc)
qed

subsection \<open>Ranks and register bounds\<close>

lemma drop_bit_less_exp:
  assumes "h < 2 ^ N" and "k \<le> N"
  shows "drop_bit k (h::int) < 2 ^ (N - k)"
proof (rule ccontr)
  assume "\<not> drop_bit k h < 2 ^ (N - k)"
  then have "(2::int) ^ (N - k) \<le> h div 2 ^ k" by (simp add: drop_bit_eq_div)
  then have "(2::int) ^ k * 2 ^ (N - k) \<le> 2 ^ k * (h div 2 ^ k)"
    by (intro mult_left_mono) simp_all
  moreover have "(2::int) ^ k * 2 ^ (N - k) = 2 ^ N"
    using assms(2) by (simp flip: power_add)
  moreover have "2 ^ k * (h div 2 ^ k) + h mod 2 ^ k = h"
    by (rule mult_div_mod_eq)
  moreover have "0 \<le> h mod 2 ^ k" by simp
  ultimately have "2 ^ N \<le> h" by linarith
  with assms(1) show False by linarith
qed

lemma rank_bounds:
  assumes h: "0 \<le> h" "h < 2 ^ 256" and k: "k \<le> 255"
  shows "1 \<le> count_leading_zeroes (drop_bit k h) \<and>
         count_leading_zeroes (drop_bit k h) \<le> 256 - int k"
proof -
  let ?v = "drop_bit k h"
  have v0: "0 \<le> ?v" using h(1) by simp
  from k have "k \<le> 256" by simp
  from drop_bit_less_exp[OF h(2) this] have vN: "?v < 2 ^ (256 - k)" .
  show ?thesis
  proof (cases "?v = 0")
    case True
    then show ?thesis using k by (simp add: count_leading_zeroes_def count_loop_nonpos)
  next
    case False
    with v0 have "0 < ?v" by linarith
    from count_loop_spec[OF this, of 1] obtain n where
      n: "count_loop ?v 1 = 1 + int n" "bit ?v n" by blast
    from bit_less_exp[OF v0 vN n(2)] have "n < 256 - k" .
    with n(1) show ?thesis by (simp add: count_leading_zeroes_def)
  qed
qed

lemma rank_positive: "1 \<le> count_leading_zeroes v"
proof (cases "0 < v")
  case True
  from count_loop_spec[OF this, of 1] show ?thesis
    by (auto simp: count_leading_zeroes_def)
next
  case False
  then show ?thesis by (simp add: count_leading_zeroes_def count_loop_nonpos)
qed

lemma add_power:
  assumes "hll_inv s" and "number_of_buckets s = 2 ^ k"
  shows "add H s x =
     (None, s\<lparr>buckets := (buckets s)[nat (H x AND (2 ^ k - 1)) :=
        max (buckets s ! nat (H x AND (2 ^ k - 1)))
          (count_leading_zeroes (drop_bit k (H x)))]\<rparr>)"
proof -
  have "0 < number_of_buckets s" using assms(2) by simp
  from add_inv[OF assms(1) this, of H x] show ?thesis
    unfolding assms(2) int_of_float_log2_power .
qed

lemma bucket_index_less:
  assumes "hll_inv s" and "0 < number_of_buckets s"
  shows "nat (h AND (number_of_buckets s - 1)) < length (buckets s)"
  using assms bucket_index_range[of "number_of_buckets s" h]
  by (simp add: hll_inv_def nat_less_iff)

lemma set_update_bound:
  assumes "\<forall>r\<in>set xs. P r" and "P v"
  shows "\<forall>r\<in>set (xs[j := v]). P r"
  using assms set_update_subset_insert[of xs j v] by auto

lemma set_map2_max_bound:
  assumes "\<forall>r\<in>set xs. lo \<le> r \<and> r \<le> hi" and "\<forall>r\<in>set ys. lo \<le> r \<and> r \<le> hi"
  shows "\<forall>r\<in>set (map2 max xs ys). lo \<le> r \<and> r \<le> (hi::int)"
proof
  fix r assume "r \<in> set (map2 max xs ys)"
  then obtain a b where "(a, b) \<in> set (zip xs ys)" "r = max a b" by auto
  then have "a \<in> set xs" "b \<in> set ys" by (auto dest: set_zip_leftD set_zip_rightD)
  with assms \<open>r = max a b\<close> show "lo \<le> r \<and> r \<le> hi" by (auto simp: max_def)
qed

lemma registers_replaced:
  assumes "hll_inv s" and "number_of_buckets s = m" and "length xs = length (buckets s)"
    and "\<forall>r\<in>set xs. P r"
  shows "hll_inv (s\<lparr>buckets := xs\<rparr>) \<and> number_of_buckets (s\<lparr>buckets := xs\<rparr>) = m \<and>
         (\<forall>r\<in>set (buckets (s\<lparr>buckets := xs\<rparr>)). P r)"
  using assms by (simp add: hll_inv_def)

lemma reachable_bounds:
  assumes d: "digest_256 H" and k: "k \<le> 255" and r: "reachable H (2 ^ k) s"
  shows "hll_inv s \<and> number_of_buckets s = 2 ^ k \<and>
         (\<forall>r\<in>set (buckets s). 0 \<le> r \<and> r \<le> 256 - int k)"
  using r
proof (induction rule: reachable.induct)
  case (reachable_new printed s)
  from new_power[of k] obtain a where
    "new (2 ^ k) = Inr ([], \<lparr>number_of_buckets = 2 ^ k, buckets = replicate (2 ^ k) 0, alpha_m = a\<rparr>)"
    by blast
  with reachable_new have "s = \<lparr>number_of_buckets = 2 ^ k, buckets = replicate (2 ^ k) 0, alpha_m = a\<rparr>"
    by simp
  then show ?case using k by (simp add: hll_inv_def)
next
  case (reachable_add s item)
  then have inv: "hll_inv s" and m: "number_of_buckets s = 2 ^ k"
    and b: "\<forall>r\<in>set (buckets s). 0 \<le> r \<and> r \<le> 256 - int k" by simp_all
  let ?j = "nat (H item AND (2 ^ k - 1))"
  let ?rank = "count_leading_zeroes (drop_bit k (H item))"
  from d have "0 \<le> H item" "H item < 2 ^ 256" by (simp_all add: digest_256_def)
  from rank_bounds[OF this k] have rk: "1 \<le> ?rank" "?rank \<le> 256 - int k" by simp_all
  have "?j < length (buckets s)"
    using bucket_index_less[OF inv, of "H item"] m by simp
  then have "buckets s ! ?j \<in> set (buckets s)" by simp
  with b rk have "0 \<le> max (buckets s ! ?j) ?rank \<and> max (buckets s ! ?j) ?rank \<le> 256 - int k"
    by (auto simp: max_def)
  with b have "\<forall>r\<in>set ((buckets s)[?j := max (buckets s ! ?j) ?rank]).
               0 \<le> r \<and> r \<le> 256 - int k"
    by (rule set_update_bound)
  then have upd: "\<forall>r\<in>set ((buckets s)[?j := max (buckets s ! ?j) ?rank]).
               0 \<le> r \<and> r \<le> 256 - int k" .
  have eq: "snd (add H s item) =
      s\<lparr>buckets := (buckets s)[?j := max (buckets s ! ?j) ?rank]\<rparr>"
    by (simp only: add_power[OF inv m] snd_conv)
  have len: "length ((buckets s)[?j := max (buckets s ! ?j) ?rank]) = length (buckets s)"
    by simp
  show ?case unfolding eq by (rule registers_replaced[OF inv m len upd])
next
  case (reachable_merge s t)
  then have inv: "hll_inv s" "hll_inv t" and m: "number_of_buckets s = 2 ^ k" "number_of_buckets t = 2 ^ k"
    and b: "\<forall>r\<in>set (buckets s). 0 \<le> r \<and> r \<le> 256 - int k"
           "\<forall>r\<in>set (buckets t). 0 \<le> r \<and> r \<le> 256 - int k" by simp_all
  from m have eq: "number_of_buckets s = number_of_buckets t" by simp
  from inv m have "length (buckets s) = length (buckets t)" by (simp add: hll_inv_def)
  then have len: "length (map2 max (buckets s) (buckets t)) = length (buckets s)" by simp
  have eq': "snd (merge s t) = s\<lparr>buckets := map2 max (buckets s) (buckets t)\<rparr>"
    by (simp only: merge_inv[OF inv eq] snd_conv)
  show ?case unfolding eq'
    by (rule registers_replaced[OF inv(1) m(1) len set_map2_max_bound[OF b]])
qed

lemma digest_256_length_hash: "digest_256 (\<lambda>item. int (length item) mod 2 ^ 256)"
  unfolding digest_256_def
proof (intro allI conjI)
  fix item :: string
  show "0 \<le> int (length item) mod 2 ^ 256"
    by (rule pos_mod_sign) simp
  show "int (length item) mod 2 ^ 256 < 2 ^ 256"
    by (rule pos_mod_bound) simp
qed

subsection \<open>Merging two streams\<close>

lemma add_all_append:
  "add_all H s (xs @ ys) = add_all H (add_all H s xs) ys"
  by (induction xs arbitrary: s) simp_all

lemma add_keeps_shape:
  assumes "hll_inv s" and "number_of_buckets s = 2 ^ k" and "\<forall>r\<in>set (buckets s). 0 \<le> r"
  shows "hll_inv (snd (add H s x)) \<and> number_of_buckets (snd (add H s x)) = 2 ^ k \<and>
         (\<forall>r\<in>set (buckets (snd (add H s x))). 0 \<le> r)"
proof -
  let ?j = "nat (H x AND (2 ^ k - 1))"
  let ?rank = "count_leading_zeroes (drop_bit k (H x))"
  have "0 \<le> max (buckets s ! ?j) ?rank"
    using rank_positive[of "drop_bit k (H x)"] by (simp add: max_def)
  with assms(3) have upd: "\<forall>r\<in>set ((buckets s)[?j := max (buckets s ! ?j) ?rank]). 0 \<le> r"
    by (rule set_update_bound)
  have eq: "snd (add H s x) = s\<lparr>buckets := (buckets s)[?j := max (buckets s ! ?j) ?rank]\<rparr>"
    by (simp only: add_power[OF assms(1,2)] snd_conv)
  have len: "length ((buckets s)[?j := max (buckets s ! ?j) ?rank]) = length (buckets s)"
    by simp
  show ?thesis unfolding eq by (rule registers_replaced[OF assms(1,2) len upd])
qed

lemma add_all_keeps_shape:
  assumes "hll_inv s" and "number_of_buckets s = 2 ^ k" and "\<forall>r\<in>set (buckets s). 0 \<le> r"
  shows "hll_inv (add_all H s xs) \<and> number_of_buckets (add_all H s xs) = 2 ^ k \<and>
         (\<forall>r\<in>set (buckets (add_all H s xs)). 0 \<le> r)"
  using assms
proof (induction xs arbitrary: s)
  case Nil
  then show ?case by simp
next
  case (Cons x xs)
  from add_keeps_shape[OF Cons.prems, of H x]
  have "hll_inv (snd (add H s x))" "number_of_buckets (snd (add H s x)) = 2 ^ k"
    "\<forall>r\<in>set (buckets (snd (add H s x))). 0 \<le> r" by blast+
  from Cons.IH[OF this] show ?case by simp
qed

lemma map2_max_update:
  assumes "length a = length b" and "j < length b"
  shows "map2 max a (b[j := max (b ! j) r]) =
         (map2 max a b)[j := max (map2 max a b ! j) (r::int)]"
proof (rule nth_equalityI)
  show "length (map2 max a (b[j := max (b ! j) r])) =
        length ((map2 max a b)[j := max (map2 max a b ! j) r])"
    by simp
next
  fix i assume "i < length (map2 max a (b[j := max (b ! j) r]))"
  then have i: "i < length a" "i < length b" by simp_all
  show "map2 max a (b[j := max (b ! j) r]) ! i =
        (map2 max a b)[j := max (map2 max a b ! j) r] ! i"
    using i assms by (cases "i = j") (simp_all add: max.assoc)
qed

lemma merge_add_commute:
  assumes a: "hll_inv a" "number_of_buckets a = 2 ^ k"
    and b: "hll_inv b" "number_of_buckets b = 2 ^ k"
  shows "snd (merge a (snd (add H b x))) = snd (add H (snd (merge a b)) x)"
proof -
  let ?j = "nat (H x AND (2 ^ k - 1))"
  let ?rank = "count_leading_zeroes (drop_bit k (H x))"
  let ?b' = "b\<lparr>buckets := (buckets b)[?j := max (buckets b ! ?j) ?rank]\<rparr>"
  let ?m = "a\<lparr>buckets := map2 max (buckets a) (buckets b)\<rparr>"
  from a b have len: "length (buckets a) = length (buckets b)" by (simp add: hll_inv_def)
  have j: "?j < length (buckets b)"
    using bucket_index_less[OF b(1), of "H x"] b(2) by simp
  have b': "snd (add H b x) = ?b'"
    by (simp only: add_power[OF b] snd_conv)
  have invb': "hll_inv ?b'" "number_of_buckets a = number_of_buckets ?b'"
    using a b by (simp_all add: hll_inv_def)
  have eqab: "number_of_buckets a = number_of_buckets b" using a b by simp
  have m: "snd (merge a b) = ?m"
    by (simp only: merge_inv[OF a(1) b(1) eqab] snd_conv)
  have invm: "hll_inv ?m" "number_of_buckets ?m = 2 ^ k"
    using a len by (simp_all add: hll_inv_def)
  have lhs: "snd (merge a ?b') =
      a\<lparr>buckets := map2 max (buckets a) ((buckets b)[?j := max (buckets b ! ?j) ?rank])\<rparr>"
    using merge_inv[OF a(1) invb'] by simp
  have rhs: "snd (add H ?m x) =
      a\<lparr>buckets := (map2 max (buckets a) (buckets b))
             [?j := max (map2 max (buckets a) (buckets b) ! ?j) ?rank]\<rparr>"
    using add_power[OF invm, of H x] by simp
  show ?thesis
    unfolding b' m lhs rhs map2_max_update[OF len j] ..
qed

lemma merge_add_all_commute:
  assumes a: "hll_inv a" "number_of_buckets a = 2 ^ k"
    and b: "hll_inv b" "number_of_buckets b = 2 ^ k" "\<forall>r\<in>set (buckets b). 0 \<le> r"
  shows "snd (merge a (add_all H b ys)) = add_all H (snd (merge a b)) ys"
  using b
proof (induction ys arbitrary: b)
  case Nil
  then show ?case by simp
next
  case (Cons y ys)
  from add_keeps_shape[OF Cons.prems, of H y]
  have b': "hll_inv (snd (add H b y))" "number_of_buckets (snd (add H b y)) = 2 ^ k"
    "\<forall>r\<in>set (buckets (snd (add H b y))). 0 \<le> r" by blast+
  have "snd (merge a (add_all H b (y # ys))) = snd (merge a (add_all H (snd (add H b y)) ys))"
    by simp
  also have "\<dots> = add_all H (snd (merge a (snd (add H b y)))) ys"
    by (rule Cons.IH[OF b'])
  also have "\<dots> = add_all H (snd (add H (snd (merge a b)) y)) ys"
    by (simp only: merge_add_commute[OF a Cons.prems(1,2)])
  also have "\<dots> = add_all H (snd (merge a b)) (y # ys)" by simp
  finally show ?case .
qed

lemma merge_fresh:
  assumes "hll_inv a" and "number_of_buckets a = 2 ^ k" and "\<forall>r\<in>set (buckets a). 0 \<le> r"
  shows "snd (merge a \<lparr>number_of_buckets = 2 ^ k, buckets = replicate (2 ^ k) 0, alpha_m = c\<rparr>) = a"
proof -
  let ?z = "\<lparr>number_of_buckets = 2 ^ k, buckets = replicate (2 ^ k) 0, alpha_m = c\<rparr>"
  have z: "hll_inv ?z" "number_of_buckets a = number_of_buckets ?z"
    using assms(2) by (simp_all add: hll_inv_def)
  from assms have len: "length (buckets a) = 2 ^ k"
    by (simp add: hll_inv_def)
  have "map2 max (buckets a) (replicate (2 ^ k) 0) = buckets a"
  proof (rule nth_equalityI)
    show "length (map2 max (buckets a) (replicate (2 ^ k) 0)) = length (buckets a)"
      using len by simp
  next
    fix i assume "i < length (map2 max (buckets a) (replicate (2 ^ k) 0))"
    then have i: "i < length (buckets a)" "i < 2 ^ k" by simp_all
    then have "buckets a ! i \<in> set (buckets a)" by simp
    with assms(3) have "0 \<le> buckets a ! i" by blast
    with i show "map2 max (buckets a) (replicate (2 ^ k) 0) ! i = buckets a ! i"
      by simp
  qed
  with merge_inv[OF assms(1) z] show ?thesis by simp
qed

subsection \<open>An estimator on which the estimate raises\<close>

text \<open>
  An estimator with one bucket, after one \<^verbatim>\<open>add\<close> of an item whose digest ends in 33
  zero bits: the register holds 34 and \<^verbatim>\<open>estimate\<close> raises.
\<close>

lemma estimate_raises_after_one_add:
  "digest_256 (\<lambda>item. 2 ^ 33) \<and>
   new (2 ^ 0) = Inr ([], \<lparr>number_of_buckets = 1, buckets = [0],
                           alpha_m = 0.7213 / (1 + 1.079 / 1)\<rparr>) \<and>
   add (\<lambda>item. 2 ^ 33)
       \<lparr>number_of_buckets = 1, buckets = [0], alpha_m = 0.7213 / (1 + 1.079 / 1)\<rparr> ''x''
     = (None, \<lparr>number_of_buckets = 1, buckets = [34],
                alpha_m = 0.7213 / (1 + 1.079 / 1)\<rparr>) \<and>
   estimate \<lparr>number_of_buckets = 1, buckets = [34], alpha_m = 0.7213 / (1 + 1.079 / 1)\<rparr>
     = Inl ValueError"
proof -
  let ?s = "\<lparr>number_of_buckets = 1, buckets = [0], alpha_m = 0.7213 / (1 + 1.079 / 1)\<rparr>"
  have d: "digest_256 (\<lambda>item. 2 ^ 33)"
    by (simp add: digest_256_def)
  have "is_integer (log 2 (real_of_int 1))"
    using log2_power_is_integer[of 0] by simp
  then have n: "new (2 ^ 0) = Inr ([], ?s)"
    by (simp add: new_def compute_alpha_m_def math_log2_def)
  have inv: "hll_inv ?s" by (simp add: hll_inv_def)
  have m: "number_of_buckets ?s = 2 ^ 0" by simp
  have rank: "count_leading_zeroes (drop_bit 0 ((2::int) ^ 33)) = 34"
    by (simp add: count_leading_zeroes_def count_loop.simps drop_bit_eq_div)
  have a: "add (\<lambda>item. 2 ^ 33) ?s ''x'' =
           (None, \<lparr>number_of_buckets = 1, buckets = [34],
                      alpha_m = 0.7213 / (1 + 1.079 / 1)\<rparr>)"
    unfolding add_power[OF inv m] rank by simp
  have e: "estimate \<lparr>number_of_buckets = 1, buckets = [34],
                      alpha_m = 0.7213 / (1 + 1.079 / 1)\<rparr> = Inl ValueError"
    by (simp add: estimate_def truediv_def math_log_def pow2_neg_def Let_def)
  from d n a e show ?thesis by blast
qed

section \<open>The claims\<close>

text \<open>
  Claim C2. Construction fails with \<open>InvalidConfiguration\<close> exactly when the bucket
  count is not a positive power of two; for a power of two it succeeds, prints nothing,
  all registers are 0, and \<^verbatim>\<open>estimate\<close> on the new estimator returns 0.
\<close>

theorem new_rejects_exactly_non_powers:
  "(new n = Inl InvalidConfiguration \<longleftrightarrow> \<not> (\<exists>k. n = 2 ^ k)) \<and>
   (\<exists>a. new (2 ^ k) =
          Inr ([], \<lparr>number_of_buckets = 2 ^ k, buckets = replicate (2 ^ k) 0, alpha_m = a\<rparr>) \<and>
        hll_inv \<lparr>number_of_buckets = 2 ^ k, buckets = replicate (2 ^ k) 0, alpha_m = a\<rparr> \<and>
        estimate \<lparr>number_of_buckets = 2 ^ k, buckets = replicate (2 ^ k) 0, alpha_m = a\<rparr> = Inr 0)"
proof
  show "new n = Inl InvalidConfiguration \<longleftrightarrow> \<not> (\<exists>k. n = 2 ^ k)"
  proof
    assume f: "new n = Inl InvalidConfiguration"
    show "\<not> (\<exists>k. n = 2 ^ k)"
    proof
      assume "\<exists>k. n = 2 ^ k"
      then obtain j where "n = 2 ^ j" by blast
      with new_power[of j] f show False by auto
    qed
  next
    assume "\<not> (\<exists>k. n = 2 ^ k)"
    then show "new n = Inl InvalidConfiguration" by (rule new_not_power)
  qed
next
  from new_power[of k] obtain a where
    a: "new (2 ^ k) =
        Inr ([], \<lparr>number_of_buckets = 2 ^ k, buckets = replicate (2 ^ k) 0, alpha_m = a\<rparr>)"
      "a \<le> 2.5" by blast
  have n: "nat (2 ^ k) = 2 ^ k" by (simp add: nat_power_eq)
  have "(0::int) < 2 ^ k" by simp
  from estimate_fresh[OF this a(2)]
  have "estimate \<lparr>number_of_buckets = 2 ^ k, buckets = replicate (2 ^ k) 0, alpha_m = a\<rparr> = Inr 0"
    unfolding n .
  moreover have "hll_inv \<lparr>number_of_buckets = 2 ^ k, buckets = replicate (2 ^ k) 0, alpha_m = a\<rparr>"
    by (simp add: hll_inv_def)
  ultimately show "\<exists>a. new (2 ^ k) =
          Inr ([], \<lparr>number_of_buckets = 2 ^ k, buckets = replicate (2 ^ k) 0, alpha_m = a\<rparr>) \<and>
        hll_inv \<lparr>number_of_buckets = 2 ^ k, buckets = replicate (2 ^ k) 0, alpha_m = a\<rparr> \<and>
        estimate \<lparr>number_of_buckets = 2 ^ k, buckets = replicate (2 ^ k) 0, alpha_m = a\<rparr> = Inr 0"
    using a(1) by blast
qed

theorem new_rejects_exactly_non_powers_witness:
  "new 0 = Inl InvalidConfiguration \<and> new 100 = Inl InvalidConfiguration \<and>
   (\<exists>a. new 512 =
          Inr ([], \<lparr>number_of_buckets = 512, buckets = replicate 512 0, alpha_m = a\<rparr>) \<and>
        estimate \<lparr>number_of_buckets = 512, buckets = replicate 512 0, alpha_m = a\<rparr> = Inr 0)"
proof -
  have z: "\<not> (\<exists>k. (0::int) = 2 ^ k)" by simp
  have p: "(2::int) ^ 9 = 512" "(2::nat) ^ 9 = 512" by simp_all
  from new_rejects_exactly_non_powers[of 0 9] new_rejects_exactly_non_powers[of 100 9]
  show ?thesis unfolding p using z not_power_100 by blast
qed

text \<open>
  Claim C3. \<^verbatim>\<open>merge\<close> fails with \<open>IncompatibleShape\<close> exactly when the two bucket
  counts differ, and then \<open>self\<close> is left as it was; when the bucket counts are equal
  (and both register lists have that many entries) the merge applies in full: every
  register becomes the maximum of the two.
\<close>

theorem merge_incompatible_shape:
  "(fst (merge self other) = Some IncompatibleShape \<longleftrightarrow>
      number_of_buckets self \<noteq> number_of_buckets other) \<and>
   (number_of_buckets self \<noteq> number_of_buckets other \<longrightarrow> snd (merge self other) = self) \<and>
   (number_of_buckets self = number_of_buckets other \<and> hll_inv self \<and> hll_inv other \<longrightarrow>
      merge self other = (None, self\<lparr>buckets := map2 max (buckets self) (buckets other)\<rparr>))"
proof (intro conjI impI)
  show "fst (merge self other) = Some IncompatibleShape \<longleftrightarrow>
        number_of_buckets self \<noteq> number_of_buckets other"
    by (simp add: merge_def Let_def)
next
  assume "number_of_buckets self \<noteq> number_of_buckets other"
  then show "snd (merge self other) = self"
    by (simp add: merge_def)
next
  assume "number_of_buckets self = number_of_buckets other \<and> hll_inv self \<and> hll_inv other"
  then show "merge self other =
             (None, self\<lparr>buckets := map2 max (buckets self) (buckets other)\<rparr>)"
    by (simp add: merge_inv)
qed

theorem merge_incompatible_shape_witness:
  "merge \<lparr>number_of_buckets = 16, buckets = replicate 16 0, alpha_m = 0.673\<rparr>
         \<lparr>number_of_buckets = 32, buckets = replicate 32 0, alpha_m = 0.697\<rparr>
     = (Some IncompatibleShape,
        \<lparr>number_of_buckets = 16, buckets = replicate 16 0, alpha_m = 0.673\<rparr>) \<and>
   merge \<lparr>number_of_buckets = 2, buckets = [1, 5], alpha_m = 0.5\<rparr>
         \<lparr>number_of_buckets = 2, buckets = [3, 2], alpha_m = 0.5\<rparr>
     = (None, \<lparr>number_of_buckets = 2, buckets = [3, 5], alpha_m = 0.5\<rparr>)"
  using
    merge_incompatible_shape
      [of "\<lparr>number_of_buckets = 16, buckets = replicate 16 0, alpha_m = 0.673\<rparr>"
          "\<lparr>number_of_buckets = 32, buckets = replicate 32 0, alpha_m = 0.697\<rparr>"]
    merge_incompatible_shape
      [of "\<lparr>number_of_buckets = 2, buckets = [1, 5], alpha_m = 0.5\<rparr>"
          "\<lparr>number_of_buckets = 2, buckets = [3, 2], alpha_m = 0.5\<rparr>"]
  by (simp add: hll_inv_def prod_eq_iff)

text \<open>
  Claim C4, amended. On an estimator with \<open>2 ^ k\<close> buckets, \<^verbatim>\<open>add\<close> raises nothing and
  stores, by \<open>max\<close>, into the register of index \<open>h AND (2 ^ k - 1)\<close> the rank of the
  remainder \<open>h >> k\<close> of the digest \<open>h\<close>: for a remainder that is not zero, the position
  of its lowest set bit counted from 1; for the remainder zero, the rank 1.
\<close>

theorem add_stores_rank:
  assumes "hll_inv s" and "number_of_buckets s = 2 ^ k" and "digest_256 sha256"
  shows "add sha256 s item =
           (None, s\<lparr>buckets := (buckets s)[nat (sha256 item AND (2 ^ k - 1)) :=
              max (buckets s ! nat (sha256 item AND (2 ^ k - 1)))
                  (count_leading_zeroes (drop_bit k (sha256 item)))]\<rparr>) \<and>
         nat (sha256 item AND (2 ^ k - 1)) < length (buckets s) \<and>
         (drop_bit k (sha256 item) = 0 \<longrightarrow>
            count_leading_zeroes (drop_bit k (sha256 item)) = 1) \<and>
         (drop_bit k (sha256 item) \<noteq> 0 \<longrightarrow>
            1 \<le> count_leading_zeroes (drop_bit k (sha256 item)) \<and>
            bit (drop_bit k (sha256 item))
                (nat (count_leading_zeroes (drop_bit k (sha256 item)) - 1)) \<and>
            (\<forall>i < nat (count_leading_zeroes (drop_bit k (sha256 item)) - 1).
               \<not> bit (drop_bit k (sha256 item)) i))"
proof -
  let ?v = "drop_bit k (sha256 item)"
  from assms(3) have h: "0 \<le> sha256 item" by (simp add: digest_256_def)
  then have v0: "0 \<le> ?v" by simp
  have idx: "nat (sha256 item AND (2 ^ k - 1)) < length (buckets s)"
    using bucket_index_less[OF assms(1), of "sha256 item"] assms(2) by simp
  have zero: "count_leading_zeroes ?v = 1" if "?v = 0"
    using that by (simp add: count_leading_zeroes_def count_loop_nonpos)
  have nonzero: "1 \<le> count_leading_zeroes ?v \<and>
            bit ?v (nat (count_leading_zeroes ?v - 1)) \<and>
            (\<forall>i < nat (count_leading_zeroes ?v - 1). \<not> bit ?v i)" if "?v \<noteq> 0"
  proof -
    from that v0 have "0 < ?v" by linarith
    from count_loop_spec[OF this, of 1] obtain n where
      n: "count_loop ?v 1 = 1 + int n" "bit ?v n" "\<forall>i<n. \<not> bit ?v i" by blast
    from n(1) have "nat (count_leading_zeroes ?v - 1) = n" "1 \<le> count_leading_zeroes ?v"
      by (simp_all add: count_leading_zeroes_def)
    with n(2,3) show ?thesis by simp
  qed
  from add_power[OF assms(1,2), of sha256 item] idx zero nonzero show ?thesis by blast
qed

theorem add_stores_rank_witness:
  "hll_inv \<lparr>number_of_buckets = 4, buckets = [0, 0, 0, 0], alpha_m = 0.5\<rparr> \<and>
   digest_256 (\<lambda>item. int (length item) mod 2 ^ 256) \<and>
   add (\<lambda>item. int (length item) mod 2 ^ 256)
       \<lparr>number_of_buckets = 4, buckets = [0, 0, 0, 0], alpha_m = 0.5\<rparr> ''abcdefgh''
     = (None, \<lparr>number_of_buckets = 4, buckets = [2, 0, 0, 0], alpha_m = 0.5\<rparr>)"
proof -
  let ?s = "\<lparr>number_of_buckets = 4, buckets = [0, 0, 0, 0], alpha_m = 0.5\<rparr>"
  let ?H = "\<lambda>item. int (length item) mod 2 ^ 256"
  have inv: "hll_inv ?s" by (simp add: hll_inv_def)
  have m: "number_of_buckets ?s = 2 ^ 2" by simp
  have h: "?H ''abcdefgh'' = 8" by simp
  have idx: "nat ((8::int) AND (2 ^ 2 - 1)) = 0" by simp
  have rank: "count_leading_zeroes (drop_bit 2 (8::int)) = 2"
    by (simp add: count_leading_zeroes_def count_loop.simps drop_bit_eq_div)
  from add_stores_rank[OF inv m digest_256_length_hash, of "''abcdefgh''"]
  have "add ?H ?s ''abcdefgh'' =
          (None, ?s\<lparr>buckets := (buckets ?s)[nat (?H ''abcdefgh'' AND (2 ^ 2 - 1)) :=
              max (buckets ?s ! nat (?H ''abcdefgh'' AND (2 ^ 2 - 1)))
                  (count_leading_zeroes (drop_bit 2 (?H ''abcdefgh'')))]\<rparr>)"
    by (rule conjunct1)
  then have "add ?H ?s ''abcdefgh'' =
      (None, \<lparr>number_of_buckets = 4, buckets = [2, 0, 0, 0], alpha_m = 0.5\<rparr>)"
    unfolding h idx rank by simp
  with inv digest_256_length_hash show ?thesis by blast
qed

text \<open>
  The claim as stated says that the rank computation grows without bound for the
  remainder zero. The loop is guarded by \<^verbatim>\<open>while value > 0\<close>: for zero it is not entered
  and the rank is 1.
\<close>

theorem rank_of_zero_remainder_counterexample:
  "count_leading_zeroes 0 = 1"
  by (simp add: count_leading_zeroes_def count_loop_nonpos)

text \<open>
  Claim C5 says that \<^verbatim>\<open>estimate\<close> never raises, whatever the non-negative registers.
  With 16 registers all at 40 (a list of 16 values in the range of ranks of a 256-bit
  digest) the raw estimate \<open>0.673 * 16\<^sup>2 / (16 / 2 ^ 40)\<close> is above \<open>2 ^ 32\<close>, so the
  large-range correction takes the logarithm of a negative number and \<^verbatim>\<open>math.log\<close>
  raises \<^verbatim>\<open>ValueError\<close>. The small-range branch guards its logarithm, the large-range
  branch does not.
\<close>

theorem estimate_raises_value_error:
  "hll_inv \<lparr>number_of_buckets = 16, buckets = replicate 16 40, alpha_m = 0.673\<rparr> \<and>
   list_all (\<lambda>r. 0 \<le> r \<and> r \<le> 252) (replicate 16 (40::int)) \<and>
   estimate \<lparr>number_of_buckets = 16, buckets = replicate 16 40, alpha_m = 0.673\<rparr>
     = Inl ValueError"
  by (simp add: hll_inv_def list_all_iff estimate_def truediv_def math_log_def pow2_neg_def Let_def
      sum_list_replicate)

text \<open>
  Claim C6, amended. For every bucket count that is not a power of two, construction
  fails with \<open>InvalidConfiguration\<close>: no estimator is created and
  \<^verbatim>\<open>_compute_alpha_m\<close> is not reached. Only a direct call of \<^verbatim>\<open>_compute_alpha_m\<close> with
  such a positive value below 128 prints the warning and returns
  \<open>0.7213 / (1 + 1.079 / n)\<close>.
\<close>

theorem non_power_of_two_rejected:
  assumes "\<not> (\<exists>k. n = 2 ^ k)"
  shows "new n = Inl InvalidConfiguration \<and>
         (0 < n \<and> n < 128 \<longrightarrow>
            compute_alpha_m n = Inr ([warning_text], 0.7213 / (1 + 1.079 / real_of_int n)))"
  using assms by (simp add: new_not_power compute_alpha_m_not_power)

theorem non_power_of_two_rejected_witness:
  "new 96 = Inl InvalidConfiguration \<and>
   compute_alpha_m 96 = Inr ([warning_text], 0.7213 / (1 + 1.079 / 96))"
proof -
  have "\<not> (\<exists>k. (96::int) = 2 ^ k)"
  proof
    assume "\<exists>k. (96::int) = 2 ^ k"
    then obtain k where k: "(96::int) = 2 ^ k" by blast
    show False
    proof (cases "k \<le> 6")
      case True
      then have "(2::int) ^ k \<le> 2 ^ 6" by (intro power_increasing) simp_all
      with k show False by simp
    next
      case False
      then have "(2::int) ^ 7 \<le> 2 ^ k" by (intro power_increasing) simp_all
      with k show False by simp
    qed
  qed
  from non_power_of_two_rejected[OF this] show ?thesis by simp
qed

text \<open>
  The claim as stated, that such a bucket count is accepted with a warning, fails at
  100: the second assertion of \<^verbatim>\<open>__init__\<close> rejects it.
\<close>

theorem non_power_of_two_accepted_counterexample:
  "new 100 = Inl InvalidConfiguration"
  by (simp add: new_def)

text \<open>
  Claim C7. For every item and every estimator, a second \<^verbatim>\<open>add\<close> of the same item
  leaves the object exactly as the first \<^verbatim>\<open>add\<close> left it, and raises what the first
  call raised.
\<close>

theorem add_idempotent:
  "snd (add sha256 (snd (add sha256 self item)) item) = snd (add sha256 self item)"
proof (cases "0 < number_of_buckets self")
  case False
  then show ?thesis by (simp add: add_nonpos)
next
  case True
  show ?thesis
  proof (cases "list_index (buckets self) (sha256 item AND (number_of_buckets self - 1))")
    case None
    with True show ?thesis by (simp add: add_pos)
  next
    case (Some j)
    then have j: "j < length (buckets self)" by (rule list_index_SomeD)
    have li: "list_index ((buckets self)[j := v]) i = list_index (buckets self) i" for v i
      by (simp add: list_index_def)
    from True Some j show ?thesis
      by (simp add: add_pos li)
  qed
qed

text \<open>
  Claim C8. For every power-of-two bucket count and every two streams of items, merging
  the estimator that received the first stream with the estimator that received the
  second raises nothing and leaves the first exactly as an estimator that received both
  streams.
\<close>

theorem merge_of_streams:
  assumes "new (2 ^ k) = Inr (printed, s0)"
  shows "merge (add_all sha256 s0 xs) (add_all sha256 s0 ys)
           = (None, add_all sha256 s0 (xs @ ys))"
proof -
  from new_power[of k] assms obtain c where
    s0: "s0 = \<lparr>number_of_buckets = 2 ^ k, buckets = replicate (2 ^ k) 0, alpha_m = c\<rparr>"
    by auto
  have g0: "hll_inv s0" "number_of_buckets s0 = 2 ^ k" "\<forall>r\<in>set (buckets s0). 0 \<le> r"
    by (simp_all add: s0 hll_inv_def)
  let ?a = "add_all sha256 s0 xs" and ?b = "add_all sha256 s0 ys"
  from add_all_keeps_shape[OF g0, of sha256 xs]
  have ga: "hll_inv ?a" "number_of_buckets ?a = 2 ^ k" "\<forall>r\<in>set (buckets ?a). 0 \<le> r"
    by blast+
  from add_all_keeps_shape[OF g0, of sha256 ys]
  have gb: "hll_inv ?b" "number_of_buckets ?b = 2 ^ k" by blast+
  have "snd (merge ?a ?b) = add_all sha256 (snd (merge ?a s0)) ys"
    by (rule merge_add_all_commute[OF ga(1,2) g0])
  also have "snd (merge ?a s0) = ?a"
    using merge_fresh[OF ga, of c] by (simp add: s0)
  also have "add_all sha256 ?a ys = add_all sha256 s0 (xs @ ys)"
    by (simp add: add_all_append)
  finally have snd: "snd (merge ?a ?b) = add_all sha256 s0 (xs @ ys)" .
  have eq: "number_of_buckets ?a = number_of_buckets ?b" using ga gb by simp
  from merge_inv[OF ga(1) gb(1) eq] have "fst (merge ?a ?b) = None" by simp
  with snd show ?thesis by (simp add: prod_eq_iff)
qed

theorem merge_of_streams_witness:
  "new (2 ^ 2) = Inr ([], \<lparr>number_of_buckets = 4, buckets = [0, 0, 0, 0],
                           alpha_m = 0.7213 / (1 + 1.079 / 4)\<rparr>) \<and>
   merge (add_all (\<lambda>item. int (length item) mod 2 ^ 256)
            \<lparr>number_of_buckets = 4, buckets = [0, 0, 0, 0], alpha_m = 0.7213 / (1 + 1.079 / 4)\<rparr>
            [''a'', ''abcdefgh''])
         (add_all (\<lambda>item. int (length item) mod 2 ^ 256)
            \<lparr>number_of_buckets = 4, buckets = [0, 0, 0, 0], alpha_m = 0.7213 / (1 + 1.079 / 4)\<rparr>
            [''abcd''])
     = (None,
        add_all (\<lambda>item. int (length item) mod 2 ^ 256)
          \<lparr>number_of_buckets = 4, buckets = [0, 0, 0, 0], alpha_m = 0.7213 / (1 + 1.079 / 4)\<rparr>
          ([''a'', ''abcdefgh''] @ [''abcd'']))"
  using new_4 merge_of_streams[OF new_4] by blast

text \<open>
  Claim C9. Each of \<^verbatim>\<open>add\<close>, \<^verbatim>\<open>merge\<close> and \<^verbatim>\<open>estimate\<close> keeps the register list at
  exactly \<open>number_of_buckets\<close> entries, keeps \<open>number_of_buckets\<close>, and leaves every
  register at least as large as it was.
\<close>

theorem operations_preserve_invariant:
  assumes "hll_inv s"
  shows "hll_inv (apply_operation sha256 s op) \<and>
         number_of_buckets (apply_operation sha256 s op) = number_of_buckets s \<and>
         (\<forall>i<length (buckets s). buckets s ! i \<le> buckets (apply_operation sha256 s op) ! i)"
proof (cases op)
  case (Add x)
  with assms show ?thesis
    by (simp add: hll_inv_def add_length add_number_of_buckets add_mono)
next
  case (Merge t)
  with assms show ?thesis
    using merge_length[OF assms, of t]
    by (simp add: hll_inv_def merge_number_of_buckets merge_mono)
next
  case Estimate
  with assms show ?thesis by simp
qed

theorem operations_preserve_invariant_witness:
  "hll_inv \<lparr>number_of_buckets = 2, buckets = [1, 5], alpha_m = 0.5\<rparr> \<and>
   hll_inv (apply_operation (\<lambda>item. int (length item))
              \<lparr>number_of_buckets = 2, buckets = [1, 5], alpha_m = 0.5\<rparr>
              (Merge \<lparr>number_of_buckets = 2, buckets = [3, 2], alpha_m = 0.5\<rparr>)) \<and>
   [1, 5] ! 0 \<le>
     buckets (apply_operation (\<lambda>item. int (length item))
                \<lparr>number_of_buckets = 2, buckets = [1, 5], alpha_m = 0.5\<rparr>
                (Merge \<lparr>number_of_buckets = 2, buckets = [3, 2], alpha_m = 0.5\<rparr>)) ! 0 \<and>
   [1, 5] ! 1 \<le>
     buckets (apply_operation (\<lambda>item. int (length item))
                \<lparr>number_of_buckets = 2, buckets = [1, 5], alpha_m = 0.5\<rparr>
                (Merge \<lparr>number_of_buckets = 2, buckets = [3, 2], alpha_m = 0.5\<rparr>)) ! 1"
proof -
  have inv: "hll_inv \<lparr>number_of_buckets = 2, buckets = [1, 5], alpha_m = 0.5\<rparr>"
    by (simp add: hll_inv_def)
  from operations_preserve_invariant
         [OF inv, of "\<lambda>item. int (length item)"
            "Merge \<lparr>number_of_buckets = 2, buckets = [3, 2], alpha_m = 0.5\<rparr>"]
  show ?thesis using inv by force
qed

text \<open>
  Claim C10. For a 256-bit digest and \<open>2 ^ k\<close> buckets with \<open>k \<le> 255\<close>, every register
  of every estimator built by \<^verbatim>\<open>add\<close> and \<^verbatim>\<open>merge\<close> lies between 0 and \<open>256 - k\<close>; the
  rank of a remainder that is not zero is at most \<open>256 - k\<close>, the rank of the remainder
  zero is 1.
\<close>

theorem registers_bounded:
  assumes "digest_256 sha256" and "k \<le> 255" and "reachable sha256 (2 ^ k) s"
  shows "(\<forall>r\<in>set (buckets s). 0 \<le> r \<and> r \<le> 256 - int k) \<and>
         (\<forall>item.
            (drop_bit k (sha256 item) \<noteq> 0 \<longrightarrow>
               1 \<le> count_leading_zeroes (drop_bit k (sha256 item)) \<and>
               count_leading_zeroes (drop_bit k (sha256 item)) \<le> 256 - int k) \<and>
            (drop_bit k (sha256 item) = 0 \<longrightarrow>
               count_leading_zeroes (drop_bit k (sha256 item)) = 1))"
proof (intro conjI allI impI)
  from reachable_bounds[OF assms]
  show "\<forall>r\<in>set (buckets s). 0 \<le> r \<and> r \<le> 256 - int k" by blast
next
  fix item
  from assms(1) have h: "0 \<le> sha256 item" "sha256 item < 2 ^ 256"
    by (simp_all add: digest_256_def)
  from rank_bounds[OF h assms(2)]
  show "1 \<le> count_leading_zeroes (drop_bit k (sha256 item))"
    and "count_leading_zeroes (drop_bit k (sha256 item)) \<le> 256 - int k"
    by blast+
next
  fix item
  assume "drop_bit k (sha256 item) = 0"
  then show "count_leading_zeroes (drop_bit k (sha256 item)) = 1"
    by (simp add: count_leading_zeroes_def count_loop_nonpos)
qed

theorem registers_bounded_witness:
  "digest_256 (\<lambda>item. int (length item) mod 2 ^ 256) \<and>
   reachable (\<lambda>item. int (length item) mod 2 ^ 256) (2 ^ 2)
     (snd (add (\<lambda>item. int (length item) mod 2 ^ 256)
             \<lparr>number_of_buckets = 4, buckets = [0, 0, 0, 0],
              alpha_m = 0.7213 / (1 + 1.079 / 4)\<rparr> ''abcdefgh'')) \<and>
   list_all (\<lambda>r. 0 \<le> r \<and> r \<le> 254)
     (buckets (snd (add (\<lambda>item. int (length item) mod 2 ^ 256)
             \<lparr>number_of_buckets = 4, buckets = [0, 0, 0, 0],
              alpha_m = 0.7213 / (1 + 1.079 / 4)\<rparr> ''abcdefgh'')))"
proof -
  let ?H = "\<lambda>item. int (length item) mod 2 ^ 256"
  let ?s = "\<lparr>number_of_buckets = 4, buckets = [0, 0, 0, 0], alpha_m = 0.7213 / (1 + 1.079 / 4)\<rparr>"
  have r: "reachable ?H (2 ^ 2) (snd (add ?H ?s ''abcdefgh''))"
    by (rule reachable_add, rule reachable_new, rule new_4)
  have k: "(2::nat) \<le> 255" by simp
  from registers_bounded[OF digest_256_length_hash k r]
  have "\<forall>r\<in>set (buckets (snd (add ?H ?s ''abcdefgh''))). 0 \<le> r \<and> r \<le> 256 - int 2"
    by (rule conjunct1)
  then have "list_all (\<lambda>r. 0 \<le> r \<and> r \<le> 254) (buckets (snd (add ?H ?s ''abcdefgh'')))"
    by (simp add: list_all_iff)
  with digest_256_length_hash r show ?thesis by blast
qed

end
